theory Spec2Isabelle
  imports Main
begin

section \<open>The serial reader of linbus: \<^verbatim>\<open>tools/serial_read.py\<close>\<close>

text \<open>
  The script is Python 2: a \<^verbatim>\<open>str\<close> is a byte string, modelled as \<^typ>\<open>string\<close>
  (a list of \<^typ>\<open>char\<close>). A Python list of one-character strings (a bit list) is a
  \<^typ>\<open>string list\<close>. An uncaught exception ends the program; it is a value of
  \<open>error\<close>.
\<close>

datatype error = ValueError | IndexError

subsection \<open>Library functions of Python used by the script\<close>

text \<open>The characters \<^verbatim>\<open>str.split()\<close>, \<^verbatim>\<open>int()\<close> and \<^verbatim>\<open>isspace\<close> treat as
  white space: space, tab, line feed, vertical tab, form feed, carriage return.\<close>

definition py_isspace :: "char \<Rightarrow> bool" where
  "py_isspace c = (c \<in> set [CHR '' '', CHR 0x09, CHR 0x0A, CHR 0x0B, CHR 0x0C, CHR 0x0D])"

text \<open>\<^verbatim>\<open>s.split()\<close> with no argument: the maximal runs of characters that are not
  white space, in order; \<open>cur\<close> is the run being read.\<close>

fun split_from :: "string \<Rightarrow> string \<Rightarrow> string list" where
  "split_from cur [] = (if cur = [] then [] else [cur])"
| "split_from cur (c # s) =
     (if py_isspace c then (if cur = [] then split_from [] s else cur # split_from [] s)
      else split_from (cur @ [c]) s)"

definition py_split :: "string \<Rightarrow> string list" where
  "py_split s = split_from [] s"

text \<open>\<^verbatim>\<open>sep.join(xs)\<close>.\<close>

fun py_join :: "string \<Rightarrow> string list \<Rightarrow> string" where
  "py_join sep [] = []"
| "py_join sep [x] = x"
| "py_join sep (x # y # ys) = x @ sep @ py_join sep (y # ys)"

text \<open>\<^verbatim>\<open>int(s, 16)\<close> as CPython 2.7 reads it: white space around the literal is
  skipped, a sign may come first (white space may follow it), then an optional
  \<^verbatim>\<open>0x\<close> or \<^verbatim>\<open>0X\<close> that a hex digit follows, then one or more hex digits of either
  case. Anything else raises \<^verbatim>\<open>ValueError\<close>.\<close>

definition hex_digit_value :: "char \<Rightarrow> nat option" where
  "hex_digit_value c =
     (let k = of_char c :: nat in
      if 48 \<le> k \<and> k \<le> 57 then Some (k - 48)
      else if 97 \<le> k \<and> k \<le> 102 then Some (k - 87)
      else if 65 \<le> k \<and> k \<le> 70 then Some (k - 55)
      else None)"

fun hex_digits_value :: "nat \<Rightarrow> string \<Rightarrow> nat option" where
  "hex_digits_value acc [] = Some acc"
| "hex_digits_value acc (c # s) =
     (case hex_digit_value c of
        None \<Rightarrow> None
      | Some d \<Rightarrow> hex_digits_value (16 * acc + d) s)"

definition strip_0x :: "string \<Rightarrow> string" where
  "strip_0x s =
     (case s of
        z # x # d # r \<Rightarrow>
          (if z = CHR ''0'' \<and> (x = CHR ''x'' \<or> x = CHR ''X'') \<and> hex_digit_value d \<noteq> None
           then d # r else s)
      | _ \<Rightarrow> s)"

definition py_int16 :: "string \<Rightarrow> error + int" where
  "py_int16 s =
     (let s1 = rev (dropWhile py_isspace (rev (dropWhile py_isspace s)));
          neg = (s1 \<noteq> [] \<and> hd s1 = CHR ''-'');
          s2 = (if s1 \<noteq> [] \<and> (hd s1 = CHR ''+'' \<or> hd s1 = CHR ''-'') then tl s1 else s1);
          s3 = strip_0x (dropWhile py_isspace s2)
      in if s3 = [] then Inl ValueError
         else (case hex_digits_value 0 s3 of
                 None \<Rightarrow> Inl ValueError
               | Some v \<Rightarrow> Inr (if neg then - int v else int v)))"

text \<open>\<^verbatim>\<open>bin(n)\<close>: an optional minus sign, \<^verbatim>\<open>0b\<close>, and the binary digits of
  \<open>|n|\<close> without leading zeros (\<^verbatim>\<open>0b0\<close> for zero).\<close>

definition bit_char :: "nat \<Rightarrow> char" where
  "bit_char d = (if d = 0 then CHR ''0'' else CHR ''1'')"

fun bin_digits :: "nat \<Rightarrow> string" where
  "bin_digits n = (if n < 2 then [bit_char n] else bin_digits (n div 2) @ [bit_char (n mod 2)])"

declare bin_digits.simps [simp del]

definition py_bin :: "int \<Rightarrow> string" where
  "py_bin n = (if n < 0 then ''-0b'' @ bin_digits (nat (- n)) else ''0b'' @ bin_digits (nat n))"

text \<open>\<^verbatim>\<open>s.zfill(width)\<close>: zeros on the left up to \<open>width\<close>, after a leading sign.\<close>

definition zfill :: "nat \<Rightarrow> string \<Rightarrow> string" where
  "zfill width s =
     (if width \<le> length s then s
      else (case s of
              [] \<Rightarrow> replicate width CHR ''0''
            | c # r \<Rightarrow>
                (if c = CHR ''+'' \<or> c = CHR ''-''
                 then c # replicate (width - length s) CHR ''0'' @ r
                 else replicate (width - length s) CHR ''0'' @ s)))"

subsection \<open>The frame pattern \<^verbatim>\<open>kFrameRegex\<close>\<close>

text \<open>
  \<^verbatim>\<open>'^([0-9a-f]{2})((?: [0-9a-f]{2})+) ([0-9a-f]{2})$'\<close>, applied with
  \<^verbatim>\<open>match\<close>, which starts at the first character. Each part of the pattern is a
  function from the text still to read to the text it consumed and the rest. The
  greedy repetition is the list of all its matches, the longest first, which is the
  order in which the backtracking matcher tries them.
\<close>

text \<open>The class \<^verbatim>\<open>[0-9a-f]\<close>.\<close>

definition hexdig :: "char \<Rightarrow> bool" where
  "hexdig c = (c \<in> set ''0123456789abcdef'')"

text \<open>\<^verbatim>\<open>[0-9a-f]{2}\<close>.\<close>

fun hex2_prefix :: "string \<Rightarrow> (string \<times> string) option" where
  "hex2_prefix (a # b # r) = (if hexdig a \<and> hexdig b then Some ([a, b], r) else None)"
| "hex2_prefix _ = None"

text \<open>\<^verbatim>\<open>(?: [0-9a-f]{2})+\<close>: every way to match it at the start of the text,
  the one with most repetitions first.\<close>

fun plus_groups :: "string \<Rightarrow> (string \<times> string) list" where
  "plus_groups (sp # a # b # r) =
     (if sp = CHR '' '' \<and> hexdig a \<and> hexdig b
      then map (\<lambda>(m, r'). ([sp, a, b] @ m, r')) (plus_groups r) @ [([sp, a, b], r)]
      else [])"
| "plus_groups _ = []"

text \<open>\<^verbatim>\<open>$\<close> without the MULTILINE flag: the end of the text, or just before a line
  feed that is the last character of the text.\<close>

definition dollar :: "string \<Rightarrow> bool" where
  "dollar r = (r = [] \<or> r = [CHR 0x0A])"

text \<open>The end of the pattern, \<^verbatim>\<open> ([0-9a-f]{2})$\<close>: the third group if it matches.\<close>

fun tail_match :: "string \<Rightarrow> string option" where
  "tail_match [] = None"
| "tail_match (sp # r) =
     (if sp = CHR '' '' then
        (case hex2_prefix r of
           None \<Rightarrow> None
         | Some (g3, r3) \<Rightarrow> if dollar r3 then Some g3 else None)
      else None)"

text \<open>The first element of a list of alternatives on which the rest of the pattern
  matches.\<close>

fun first_match :: "('a \<Rightarrow> 'b option) \<Rightarrow> 'a list \<Rightarrow> 'b option" where
  "first_match f [] = None"
| "first_match f (x # xs) = (case f x of None \<Rightarrow> first_match f xs | Some y \<Rightarrow> Some y)"

text \<open>The pattern after its first group,
  \<^verbatim>\<open>((?: [0-9a-f]{2})+) ([0-9a-f]{2})$\<close>: the repetition gives back one group
  at a time until the end of the pattern matches. The result is the second and the
  third group.\<close>

definition groups_then_tail :: "string \<Rightarrow> (string \<times> string) option" where
  "groups_then_tail s =
     first_match (\<lambda>(g2, r2). map_option (Pair g2) (tail_match r2)) (plus_groups s)"

text \<open>\<^verbatim>\<open>kFrameRegex.match(line)\<close>: the three groups, or \<open>None\<close>.\<close>

definition kFrameRegex_match :: "string \<Rightarrow> (string \<times> string \<times> string) option" where
  "kFrameRegex_match line =
     (case hex2_prefix line of
        None \<Rightarrow> None
      | Some (g1, r1) \<Rightarrow> map_option (Pair g1) (groups_then_tail r1))"

subsection \<open>Frames\<close>

text \<open>The class \<^verbatim>\<open>LinFrame\<close>; its field \<^verbatim>\<open>id\<close> is \<open>id_f\<close> here, \<open>id\<close> being the
  identity function of HOL.\<close>

record LinFrame =
  id_f :: string
  data :: "string list"
  checksum :: string

text \<open>\<^verbatim>\<open>parseLine\<close>: a frame, or \<open>None\<close>.\<close>

definition parseLine :: "string \<Rightarrow> LinFrame option" where
  "parseLine line =
     (case kFrameRegex_match line of
        None \<Rightarrow> None
      | Some (g1, g2, g3) \<Rightarrow> Some \<lparr>id_f = g1, data = py_split g2, checksum = g3\<rparr>)"

text \<open>\<^verbatim>\<open>hexListToBitList\<close>: the loop over \<open>hex_list\<close>, with \<open>result\<close> as it grows.\<close>

fun hexListToBitList_loop :: "string list \<Rightarrow> string list \<Rightarrow> error + string list" where
  "hexListToBitList_loop result [] = Inr result"
| "hexListToBitList_loop result (hex_str # rest) =
     (case py_int16 hex_str of
        Inl e \<Rightarrow> Inl e
      | Inr as_int \<Rightarrow>
          (let bin_str = zfill 8 (drop 2 (py_bin as_int))
           in hexListToBitList_loop (result @ map (\<lambda>c. [c]) bin_str) rest))"

definition hexListToBitList :: "string list \<Rightarrow> error + string list" where
  "hexListToBitList hex_list = hexListToBitList_loop [] hex_list"

text \<open>\<^verbatim>\<open>diffBitLists\<close>: the loop over \<^verbatim>\<open>enumerate(new_bit_list)\<close>; reading
  \<^verbatim>\<open>old_bit_list[idx]\<close> past the end of the old list raises \<^verbatim>\<open>IndexError\<close>.\<close>

definition index :: "'a list \<Rightarrow> nat \<Rightarrow> error + 'a" where
  "index xs i = (if i < length xs then Inr (xs ! i) else Inl IndexError)"

fun diffBitLists_loop ::
  "string list \<Rightarrow> string list \<Rightarrow> nat \<Rightarrow> string list \<Rightarrow> error + string list" where
  "diffBitLists_loop old_bit_list result idx [] = Inr result"
| "diffBitLists_loop old_bit_list result idx (new_val # rest) =
     (case index old_bit_list idx of
        Inl e \<Rightarrow> Inl e
      | Inr old_val \<Rightarrow>
          (if new_val \<noteq> old_val
           then diffBitLists_loop old_bit_list (result @ [new_val]) (Suc idx) rest
           else diffBitLists_loop old_bit_list (result @ [''-'']) (Suc idx) rest))"

definition diffBitLists :: "string list \<Rightarrow> string list \<Rightarrow> error + string list" where
  "diffBitLists old_bit_list new_bit_list = diffBitLists_loop old_bit_list [] 0 new_bit_list"

text \<open>\<^verbatim>\<open>insertSeperators\<close>. \<^verbatim>\<open>range(0, len(str), n)\<close> raises \<^verbatim>\<open>ValueError\<close> when
  \<open>n\<close> is zero and is empty when \<open>n\<close> is negative; \<^verbatim>\<open>str[i: i+n]\<close> is the
  slice of at most \<open>n\<close> characters from \<open>i\<close>.\<close>

definition py_range0 :: "nat \<Rightarrow> nat \<Rightarrow> nat list" where
  "py_range0 len n = map (\<lambda>k. k * n) [0 ..< (len + n - 1) div n]"

definition slice :: "string \<Rightarrow> nat \<Rightarrow> nat \<Rightarrow> string" where
  "slice s i j = take (j - i) (drop i s)"

definition insertSeperators :: "string \<Rightarrow> int \<Rightarrow> string \<Rightarrow> error + string" where
  "insertSeperators str n sep =
     (if n = 0 then Inl ValueError
      else if n < 0 then Inr (py_join sep [])
      else Inr (py_join sep (map (\<lambda>i. slice str i (i + nat n)) (py_range0 (length str) (nat n)))))"

subsection \<open>The loop of \<^verbatim>\<open>main\<close>\<close>

text \<open>
  The state of the loop is the dictionary \<^verbatim>\<open>last_bit_lists\<close> and what has been
  written to standard output, one element per \<^verbatim>\<open>write\<close>. The flag \<open>diff\<close> is the
  truth value of \<^verbatim>\<open>FLAGS.diff\<close>; the time stamp is read from the clock outside and
  is a parameter. One run of the loop body gives the state at its end, or the state
  at the point where an exception left it, with that exception.
\<close>

record loop_state =
  last_bit_lists :: "string \<rightharpoonup> string list"
  stdout :: "string list"

definition stdout_write :: "string \<Rightarrow> loop_state \<Rightarrow> loop_state" where
  "stdout_write out_line st = st\<lparr>stdout := stdout st @ [out_line]\<rparr>"

definition main_iter ::
  "bool \<Rightarrow> string \<Rightarrow> string \<Rightarrow> loop_state \<Rightarrow> loop_state \<times> error option" where
  "main_iter diff timestamp line st =
     (if \<not> diff then (stdout_write (timestamp @ ''  '' @ line @ [CHR 0x0A]) st, None)
      else
        (case parseLine line of
           None \<Rightarrow> (st, None)
         | Some frame \<Rightarrow>
             (case hexListToBitList (data frame) of
                Inl e \<Rightarrow> (st, Some e)
              | Inr new_bit_list \<Rightarrow>
                  (case last_bit_lists st (id_f frame) of
                     None \<Rightarrow>
                       (st\<lparr>last_bit_lists := (last_bit_lists st)(id_f frame \<mapsto> new_bit_list)\<rparr>,
                        None)
                   | Some old_bit_list \<Rightarrow>
                       (let st1 =
                              st\<lparr>last_bit_lists := (last_bit_lists st)(id_f frame \<mapsto> new_bit_list)\<rparr>
                        in if new_bit_list = old_bit_list then (st1, None)
                           else
                             (case diffBitLists old_bit_list new_bit_list of
                                Inl e \<Rightarrow> (st1, Some e)
                              | Inr diff_bit_list \<Rightarrow>
                                  (case insertSeperators (py_join [] diff_bit_list) 4 '' '' of
                                     Inl e \<Rightarrow> (st1, Some e)
                                   | Inr diff_str4 \<Rightarrow>
                                       (case insertSeperators diff_str4 10 ''| '' of
                                          Inl e \<Rightarrow> (st1, Some e)
                                        | Inr diff_str \<Rightarrow>
                                            (stdout_write (timestamp @ ''  '' @ id_f frame @ '': | ''
                                                    @ diff_str @ '' |'' @ [CHR 0x0A]) st1,
                                             None)))))))))"

text \<open>\<^verbatim>\<open>readLine\<close>: the characters up to the first line feed, which is not part of the
  line, and the input after it. An input with no line feed in it never gives a line
  (the call does not return): that is \<open>None\<close>. \<open>line\<close> is the list as it grows.\<close>

fun readLine_loop :: "string \<Rightarrow> string \<Rightarrow> (string \<times> string) option" where
  "readLine_loop line [] = None"
| "readLine_loop line (char # fd) =
     (if char = CHR 0x0A then Some (line, fd) else readLine_loop (line @ [char]) fd)"

definition readLine :: "string \<Rightarrow> (string \<times> string) option" where
  "readLine fd = readLine_loop [] fd"

text \<open>The loop over the lines read so far, each with its time stamp; it never ends by
  itself, and an exception ends it.\<close>

fun main_loop ::
  "bool \<Rightarrow> (string \<times> string) list \<Rightarrow> loop_state \<Rightarrow> loop_state \<times> error option" where
  "main_loop diff [] st = (st, None)"
| "main_loop diff ((timestamp, line) # rest) st =
     (case main_iter diff timestamp line st of
        (st', None) \<Rightarrow> main_loop diff rest st'
      | (st', Some e) \<Rightarrow> (st', Some e))"

text \<open>The state when the loop starts.\<close>

definition init_state :: loop_state where
  "init_state = \<lparr>last_bit_lists = Map.empty, stdout = []\<rparr>"

section \<open>The words of the specification\<close>

text \<open>A field of a frame line: exactly two lowercase hex digits.\<close>

definition hex2 :: "string \<Rightarrow> bool" where
  "hex2 s = (case s of [a, b] \<Rightarrow> hexdig a \<and> hexdig b | _ \<Rightarrow> False)"

text \<open>The fields \<open>bs\<close>, each after one space.\<close>

definition groups :: "string list \<Rightarrow> string" where
  "groups bs = concat (map (\<lambda>b. CHR '' '' # b) bs)"

text \<open>The line \<^verbatim>\<open>ID B1 ... Bn CK\<close>: the fields with single spaces between them.\<close>

definition frame_line :: "string \<Rightarrow> string list \<Rightarrow> string \<Rightarrow> string" where
  "frame_line i bs ck = py_join '' '' ([i] @ bs @ [ck])"

text \<open>An uppercase hex digit.\<close>

definition upper_hexdig :: "char \<Rightarrow> bool" where
  "upper_hexdig c = (c \<in> set ''ABCDEF'')"

text \<open>The last token of a line, tokens being what \<^verbatim>\<open>split()\<close> gives: the runs of
  characters between white space. A line of white space only has none.\<close>

definition trailing_token :: "string \<Rightarrow> string option" where
  "trailing_token line = (if py_split line = [] then None else Some (last (py_split line)))"

text \<open>The text after the last space of a line (the whole line when it has no space).\<close>

definition last_field :: "string \<Rightarrow> string" where
  "last_field line = rev (takeWhile (\<lambda>c. c \<noteq> CHR '' '') (rev line))"

text \<open>The diff mask of the specification: at each position of the new sequence, the
  new bit where it differs from the old one, and the placeholder elsewhere.\<close>

definition diff_mask :: "string list \<Rightarrow> string list \<Rightarrow> string list" where
  "diff_mask old_sequence new_sequence =
     map (\<lambda>i. if new_sequence ! i \<noteq> old_sequence ! i then new_sequence ! i else ''-'')
       [0 ..< length new_sequence]"

text \<open>Removing the separators from a string that has one of \<open>k\<close> characters after
  every \<open>n\<close> characters: keep \<open>n\<close> characters, skip \<open>k\<close>, and again; what is left
  at the end, at most \<open>n\<close> characters, is the last chunk.\<close>

function remove_seps :: "nat \<Rightarrow> nat \<Rightarrow> string \<Rightarrow> string" where
  "remove_seps n k r =
     (if n = 0 \<or> length r \<le> n then r else take n r @ remove_seps n k (drop (n + k) r))"
  by pat_completeness auto
termination
  by (relation "measure (\<lambda>(n, k, r). length r)") auto

declare remove_seps.simps [simp del]

text \<open>The chunks of \<open>n\<close> characters of a string, the last one shorter when the length
  is no multiple of \<open>n\<close>.\<close>

function chunks :: "nat \<Rightarrow> string \<Rightarrow> string list" where
  "chunks n s = (if n = 0 \<or> s = [] then [] else take n s # chunks n (drop n s))"
  by pat_completeness auto
termination
  by (relation "measure (\<lambda>(n, s). length s)") auto

declare chunks.simps [simp del]

text \<open>The value of a lowercase hex digit: its place in \<^verbatim>\<open>0123456789abcdef\<close>.\<close>

definition digit_value :: "char \<Rightarrow> nat" where
  "digit_value c = length (takeWhile (\<lambda>d. d \<noteq> c) ''0123456789abcdef'')"

text \<open>The value of a string of hex digits in base 16.\<close>

definition hex_value :: "string \<Rightarrow> nat" where
  "hex_value s = foldl (\<lambda>v c. 16 * v + digit_value c) 0 s"

text \<open>The eight binary digits of a value, the most significant first, with zeros on
  the left.\<close>

definition byte_bits :: "nat \<Rightarrow> string" where
  "byte_bits v = map (\<lambda>i. if odd (v div 2 ^ i) then CHR ''1'' else CHR ''0'') [7, 6, 5, 4, 3, 2, 1, 0]"

text \<open>The \<open>w\<close> lowest binary digits of a value, the most significant first.\<close>

fun msb_bits :: "nat \<Rightarrow> nat \<Rightarrow> string" where
  "msb_bits 0 v = []"
| "msb_bits (Suc w) v = msb_bits w (v div 2) @ [bit_char (v mod 2)]"

text \<open>A run of zero or more further fields, each after one space.\<close>

fun more_groups :: "string \<Rightarrow> bool" where
  "more_groups [] = True"
| "more_groups (sp # a # b # r) = (sp = CHR '' '' \<and> hexdig a \<and> hexdig b \<and> more_groups r)"
| "more_groups _ = False"

text \<open>A string without its last character when that is a line feed.\<close>

definition chop_newline :: "string \<Rightarrow> string" where
  "chop_newline s = (if s \<noteq> [] \<and> last s = CHR 0x0A then butlast s else s)"

section \<open>Facts about the model\<close>

subsection \<open>The frame pattern\<close>

lemma hex2_iff: "hex2 s \<longleftrightarrow> (\<exists>a b. s = [a, b] \<and> hexdig a \<and> hexdig b)"
  by (auto simp: hex2_def split: list.splits)

lemma first_match_append:
  "first_match f (xs @ ys) = (case first_match f xs of None \<Rightarrow> first_match f ys | Some y \<Rightarrow> Some y)"
  by (induction xs) (auto split: option.splits)

lemma first_match_map_prefix:
  "first_match (\<lambda>(g2, r2). map_option (Pair g2) (tail_match r2)) (map (\<lambda>(m, r'). (h m, r')) xs)
   = map_option (\<lambda>(g2, g3). (h g2, g3)) (first_match (\<lambda>(g2, r2). map_option (Pair g2) (tail_match r2)) xs)"
  by (induction xs) (auto split: option.splits)

lemma groups_then_tail_group:
  assumes "hexdig a" "hexdig b"
  shows "groups_then_tail (CHR '' '' # a # b # r) =
     (case groups_then_tail r of
        Some (g2, g3) \<Rightarrow> Some (CHR '' '' # a # b # g2, g3)
      | None \<Rightarrow> map_option (Pair [CHR '' '', a, b]) (tail_match r))"
proof -
  define h where "h = (\<lambda>m. CHR '' '' # a # b # m)"
  define F :: "string \<times> string \<Rightarrow> (string \<times> string) option" where "F = (\<lambda>(g2, r2). map_option (Pair g2) (tail_match r2))"
  have pg: "plus_groups (CHR '' '' # a # b # r) =
        map (\<lambda>(m, r'). (h m, r')) (plus_groups r) @ [([CHR '' '', a, b], r)]"
    using assms by (simp add: h_def)
  have "groups_then_tail (CHR '' '' # a # b # r) =
        (case first_match F (map (\<lambda>(m, r'). (h m, r')) (plus_groups r)) of
           None \<Rightarrow> first_match F [([CHR '' '', a, b], r)]
         | Some y \<Rightarrow> Some y)"
    unfolding groups_then_tail_def pg F_def by (rule first_match_append)
  also have "first_match F (map (\<lambda>(m, r'). (h m, r')) (plus_groups r)) =
             map_option (\<lambda>(g2, g3). (h g2, g3)) (groups_then_tail r)"
    unfolding groups_then_tail_def F_def by (rule first_match_map_prefix)
  finally show ?thesis
    by (simp add: h_def F_def split: option.splits)
qed

lemma groups_then_tail_no_group:
  "plus_groups s = [] \<Longrightarrow> groups_then_tail s = None"
  by (simp add: groups_then_tail_def)

lemma tail_match_Some:
  "tail_match s = Some g3 \<longleftrightarrow> (\<exists>a b t. s = CHR '' '' # a # b # t \<and> hexdig a \<and> hexdig b \<and> g3 = [a, b] \<and> dollar t)"
proof (cases s)
  case Nil
  then show ?thesis by simp
next
  case (Cons sp r)
  then show ?thesis
    by (cases r rule: hex2_prefix.cases) (auto split: if_splits option.splits)
qed

lemma dollar_simps [simp]:
  "dollar []" "dollar [CHR 0x0A]" "\<not> dollar (x # y # zs)" "dollar [c] \<longleftrightarrow> c = CHR 0x0A"
  by (auto simp: dollar_def)

lemma groups_simps [simp]:
  "groups [] = []" "groups (b # bs) = CHR '' '' # b @ groups bs"
  by (simp_all add: groups_def)

lemma groups_then_tail_dollar: "dollar t \<Longrightarrow> groups_then_tail t = None"
  by (auto simp: dollar_def groups_then_tail_def)

lemma tail_match_dollar: "dollar t \<Longrightarrow> tail_match t = None"
  by (auto simp: dollar_def)

lemma groups_then_tail_sound:
  "groups_then_tail s = Some (g2, g3) \<Longrightarrow>
   \<exists>bs t. bs \<noteq> [] \<and> (\<forall>b\<in>set bs. hex2 b) \<and> g2 = groups bs \<and> hex2 g3 \<and> dollar t \<and>
          s = g2 @ CHR '' '' # g3 @ t"
proof (induction s arbitrary: g2 rule: plus_groups.induct)
  case (1 sp a b r)
  show ?case
  proof (cases "sp = CHR '' '' \<and> hexdig a \<and> hexdig b")
    case False
    then have "groups_then_tail (sp # a # b # r) = None"
      by (intro groups_then_tail_no_group) auto
    with "1.prems" show ?thesis by simp
  next
    case True
    note eq = groups_then_tail_group [of a b r]
    show ?thesis
    proof (cases "groups_then_tail r")
      case None
      with eq True "1.prems" have tm: "tail_match r = Some g3" and g2: "g2 = [CHR '' '', a, b]"
        by auto
      from tm obtain c d t where r: "r = CHR '' '' # c # d # t" "hexdig c" "hexdig d"
          "g3 = [c, d]" "dollar t"
        unfolding tail_match_Some by blast
      have "[[a, b]] \<noteq> [] \<and> (\<forall>x\<in>set [[a, b]]. hex2 x) \<and> g2 = groups [[a, b]] \<and> hex2 g3 \<and>
            dollar t \<and> sp # a # b # r = g2 @ CHR '' '' # g3 @ t"
        using True r g2 by (simp add: hex2_iff)
      then show ?thesis by blast
    next
      case (Some p)
      obtain g2' g3' where p: "p = (g2', g3')" by (cases p)
      with Some eq True "1.prems" have g: "g2 = CHR '' '' # a # b # g2'" "g3 = g3'"
        by auto
      from "1.IH" [OF True, of g2'] Some p g obtain bs t where
        bs: "bs \<noteq> []" "\<forall>x\<in>set bs. hex2 x" "g2' = groups bs" "hex2 g3" "dollar t"
          "r = g2' @ CHR '' '' # g3 @ t"
        by auto
      have "[a, b] # bs \<noteq> [] \<and> (\<forall>x\<in>set ([a, b] # bs). hex2 x) \<and> g2 = groups ([a, b] # bs) \<and>
            hex2 g3 \<and> dollar t \<and> sp # a # b # r = g2 @ CHR '' '' # g3 @ t"
        using True bs g by (simp add: hex2_iff)
      then show ?thesis by blast
    qed
  qed
qed (simp_all add: groups_then_tail_def)

lemma groups_then_tail_complete:
  "bs \<noteq> [] \<Longrightarrow> \<forall>b\<in>set bs. hex2 b \<Longrightarrow> hex2 ck \<Longrightarrow> dollar t \<Longrightarrow>
   groups_then_tail (groups bs @ CHR '' '' # ck @ t) = Some (groups bs, ck)"
proof (induction bs)
  case Nil
  then show ?case by simp
next
  case (Cons b bs)
  from Cons.prems obtain a c where b: "b = [a, c]" "hexdig a" "hexdig c"
    by (auto simp: hex2_iff)
  from Cons.prems obtain x y where ck: "ck = [x, y]" "hexdig x" "hexdig y"
    by (auto simp: hex2_iff)
  show ?case
  proof (cases "bs = []")
    case True
    have "groups_then_tail (CHR '' '' # x # y # t) = None"
      using ck Cons.prems(4)
      by (simp add: groups_then_tail_group groups_then_tail_dollar tail_match_dollar)
    then show ?thesis
      using True b ck Cons.prems(4) by (simp add: groups_then_tail_group)
  next
    case False
    with Cons have "groups_then_tail (groups bs @ CHR '' '' # ck @ t) = Some (groups bs, ck)"
      by simp
    then show ?thesis
      using b by (simp add: groups_then_tail_group)
  qed
qed

lemma py_join_Cons: "py_join sep (x # xs) = x @ concat (map (\<lambda>y. sep @ y) xs)"
  by (induction xs arbitrary: x) auto

lemma frame_line_eq: "frame_line i bs ck = i @ groups bs @ CHR '' '' # ck"
  by (simp add: frame_line_def py_join_Cons groups_def)

lemma hexdig_not_space: "hexdig c \<Longrightarrow> \<not> py_isspace c"
  by (auto simp: hexdig_def py_isspace_def)

lemma split_from_word:
  "\<forall>c\<in>set w. \<not> py_isspace c \<Longrightarrow> split_from cur (w @ s) = split_from (cur @ w) s"
  by (induction w arbitrary: cur) auto

lemma hex2_no_space: "hex2 b \<Longrightarrow> \<forall>c\<in>set b. \<not> py_isspace c"
  by (auto simp: hex2_iff hexdig_not_space)

lemma hex2_not_Nil: "hex2 b \<Longrightarrow> b \<noteq> []"
  by (auto simp: hex2_iff)

lemma split_from_hex2: "hex2 b \<Longrightarrow> split_from cur (b @ s) = split_from (cur @ b) s"
  by (rule split_from_word [OF hex2_no_space])

lemma split_from_groups:
  "\<forall>b\<in>set bs. hex2 b \<Longrightarrow> cur \<noteq> [] \<Longrightarrow> dollar t \<Longrightarrow>
   split_from cur (groups bs @ t) = cur # bs"
proof (induction bs arbitrary: cur)
  case Nil
  then show ?case by (auto simp: dollar_def py_isspace_def)
next
  case (Cons b bs)
  have "split_from cur (groups (b # bs) @ t) = cur # split_from [] (b @ groups bs @ t)"
    using Cons.prems(2) by (simp add: py_isspace_def)
  also have "split_from [] (b @ groups bs @ t) = split_from b (groups bs @ t)"
    using Cons.prems(1) by (simp add: split_from_hex2)
  also have "\<dots> = b # bs"
    using Cons.prems by (intro Cons.IH) (auto simp: hex2_not_Nil)
  finally show ?case .
qed

lemma py_split_groups: "\<forall>b\<in>set bs. hex2 b \<Longrightarrow> py_split (groups bs) = bs"
proof (cases bs)
  case Nil
  then show ?thesis by (simp add: py_split_def)
next
  case (Cons b bs')
  assume h: "\<forall>b\<in>set bs. hex2 b"
  have "py_split (groups bs) = split_from [] (b @ groups bs' @ [])"
    using Cons by (simp add: py_split_def py_isspace_def)
  also have "\<dots> = split_from b (groups bs' @ [])"
    using h Cons by (simp add: split_from_hex2)
  also have "\<dots> = b # bs'"
    using h Cons by (intro split_from_groups) (auto simp: hex2_not_Nil)
  finally show ?thesis using Cons by simp
qed

lemma py_split_frame_line:
  assumes "hex2 i" "\<forall>b\<in>set bs. hex2 b" "hex2 ck" "dollar t"
  shows "py_split (frame_line i bs ck @ t) = i # bs @ [ck]"
proof -
  have "frame_line i bs ck @ t = i @ groups (bs @ [ck]) @ t"
    by (simp add: frame_line_eq groups_def)
  then have "py_split (frame_line i bs ck @ t) = split_from i (groups (bs @ [ck]) @ t)"
    using assms(1) by (simp add: py_split_def split_from_hex2)
  also have "\<dots> = i # bs @ [ck]"
    using assms by (intro split_from_groups) (auto simp: hex2_not_Nil)
  finally show ?thesis .
qed

lemma hex2_prefix_hex2: "hex2 i \<Longrightarrow> hex2_prefix (i @ r) = Some (i, r)"
  by (auto simp: hex2_iff)

lemma hex2_prefix_Some: "hex2_prefix s = Some (g, r) \<Longrightarrow> hex2 g \<and> s = g @ r"
  by (cases s rule: hex2_prefix.cases) (auto simp: hex2_iff split: if_splits)

lemma parseLine_frame_line:
  assumes "hex2 i" "bs \<noteq> []" "\<forall>b\<in>set bs. hex2 b" "hex2 ck" "dollar t"
  shows "parseLine (frame_line i bs ck @ t) = Some \<lparr>id_f = i, data = bs, checksum = ck\<rparr>"
proof -
  have "kFrameRegex_match (i @ groups bs @ CHR '' '' # ck @ t) = Some (i, groups bs, ck)"
    using assms by (simp add: kFrameRegex_match_def hex2_prefix_hex2 groups_then_tail_complete)
  then show ?thesis
    using assms(3) by (simp add: parseLine_def frame_line_eq py_split_groups)
qed

lemma parseLine_Some:
  assumes "parseLine line = Some fr"
  shows "hex2 (id_f fr) \<and> data fr \<noteq> [] \<and> (\<forall>b\<in>set (data fr). hex2 b) \<and> hex2 (checksum fr) \<and>
         (\<exists>t. dollar t \<and> line = frame_line (id_f fr) (data fr) (checksum fr) @ t)"
proof -
  from assms obtain g1 g2 g3 where m: "kFrameRegex_match line = Some (g1, g2, g3)"
    and fr: "fr = \<lparr>id_f = g1, data = py_split g2, checksum = g3\<rparr>"
    by (auto simp: parseLine_def split: option.splits)
  from m obtain r1 where h: "hex2_prefix line = Some (g1, r1)"
    and g: "groups_then_tail r1 = Some (g2, g3)"
    by (auto simp: kFrameRegex_match_def split: option.splits)
  from groups_then_tail_sound [OF g] obtain bs t where
    bs: "bs \<noteq> []" "\<forall>b\<in>set bs. hex2 b" "g2 = groups bs" "hex2 g3" "dollar t"
      "r1 = g2 @ CHR '' '' # g3 @ t"
    by blast
  have "py_split g2 = bs" using bs by (simp add: py_split_groups)
  moreover have "line = frame_line g1 bs g3 @ t"
    using hex2_prefix_Some [OF h] bs by (simp add: frame_line_eq)
  ultimately show ?thesis
    using fr bs hex2_prefix_Some [OF h] by auto
qed

lemma hexdig_cases:
  "hexdig c \<Longrightarrow> \<not> upper_hexdig c \<and> c \<noteq> CHR '' '' \<and> c \<noteq> CHR 0x0A"
  by (auto simp: hexdig_def upper_hexdig_def)

lemma set_groups: "set (groups bs) \<subseteq> {CHR '' ''} \<union> (\<Union>b\<in>set bs. set b)"
  by (induction bs) auto

lemma parseLine_chars:
  assumes "parseLine line = Some fr" "c \<in> set line"
  shows "hexdig c \<or> c = CHR '' '' \<or> c = CHR 0x0A"
proof -
  from parseLine_Some [OF assms(1)] obtain t where
    h: "hex2 (id_f fr)" "\<forall>b\<in>set (data fr). hex2 b" "hex2 (checksum fr)" "dollar t"
      "line = id_f fr @ groups (data fr) @ CHR '' '' # checksum fr @ t"
    by (auto simp: frame_line_eq)
  have "c \<in> set (id_f fr) \<or> c \<in> set (groups (data fr)) \<or> c = CHR '' '' \<or> c \<in> set (checksum fr) \<or> c \<in> set t"
    using assms(2) h(5) by auto
  moreover have "\<And>b. hex2 b \<Longrightarrow> c \<in> set b \<Longrightarrow> hexdig c"
    by (auto simp: hex2_iff)
  moreover have "c \<in> set t \<Longrightarrow> c = CHR 0x0A"
    using h(4) by (auto simp: dollar_def)
  ultimately show ?thesis
    using h(1-3) set_groups [of "data fr"] by blast
qed

lemma parseLine_no_data:
  assumes "hex2 i" "hex2 ck"
  shows "parseLine (frame_line i [] ck) = None"
proof -
  from assms obtain a b c d where "i = [a, b]" "ck = [c, d]" "hexdig a" "hexdig b" "hexdig c" "hexdig d"
    by (auto simp: hex2_iff)
  then show ?thesis
    by (simp add: parseLine_def kFrameRegex_match_def frame_line_eq groups_then_tail_group
        groups_then_tail_dollar)
qed

lemma parseLine_trailing_token:
  assumes "parseLine line = Some fr"
  shows "trailing_token line = Some (checksum fr)"
proof -
  from parseLine_Some [OF assms] obtain t where
    h: "hex2 (id_f fr)" "\<forall>b\<in>set (data fr). hex2 b" "hex2 (checksum fr)" "dollar t"
      "line = frame_line (id_f fr) (data fr) (checksum fr) @ t"
    by auto
  show ?thesis
    unfolding h(5) trailing_token_def py_split_frame_line [OF h(1-4)] by simp
qed

lemma parseLine_last_field:
  assumes "parseLine line = Some fr" "CHR 0x0A \<notin> set line"
  shows "last_field line = checksum fr"
proof -
  from parseLine_Some [OF assms(1)] obtain t where
    h: "hex2 (checksum fr)" "dollar t"
      "line = id_f fr @ groups (data fr) @ CHR '' '' # checksum fr @ t"
    by (auto simp: frame_line_eq)
  from h(2,3) assms(2) have t: "t = []" by (auto simp: dollar_def)
  have "\<And>c. c \<in> set (rev (checksum fr)) \<Longrightarrow> c \<noteq> CHR '' ''"
    using h(1) by (auto simp: hex2_iff hexdig_def)
  then have "takeWhile (\<lambda>c. c \<noteq> CHR '' '') (rev (checksum fr) @ CHR '' '' # rev (id_f fr @ groups (data fr)))
             = rev (checksum fr)"
    by (subst takeWhile_append2) auto
  then show ?thesis
    by (simp add: last_field_def h(3) t)
qed

subsection \<open>The bit diff\<close>

lemma diffBitLists_loop_in_range:
  "idx + length rest \<le> length old \<Longrightarrow>
   diffBitLists_loop old res idx rest =
     Inr (res @ map2 (\<lambda>o_val n_val. if n_val \<noteq> o_val then n_val else ''-'') (drop idx old) rest)"
proof (induction rest arbitrary: res idx)
  case Nil
  then show ?case by simp
next
  case (Cons n rest)
  then have lt: "idx < length old" by simp
  then have d: "drop idx old = old ! idx # drop (Suc idx) old"
    by (simp add: Cons_nth_drop_Suc)
  from Cons.prems have "Suc idx + length rest \<le> length old" by simp
  from Cons.IH [OF this] lt show ?case
    by (simp add: index_def d)
qed

lemma diffBitLists_loop_out_of_range:
  "idx \<le> length old \<Longrightarrow> length old < idx + length rest \<Longrightarrow>
   diffBitLists_loop old res idx rest = Inl IndexError"
proof (induction rest arbitrary: res idx)
  case Nil
  then show ?case by simp
next
  case (Cons n rest)
  show ?case
  proof (cases "idx < length old")
    case True
    with Cons.prems have "Suc idx \<le> length old" "length old < Suc idx + length rest" by simp_all
    from Cons.IH [OF this] True show ?thesis by (simp add: index_def)
  next
    case False
    then show ?thesis by (simp add: index_def)
  qed
qed

lemma map2_eq_diff_mask:
  "length new \<le> length old \<Longrightarrow>
   map2 (\<lambda>o_val n_val. if n_val \<noteq> o_val then n_val else ''-'') old new = diff_mask old new"
  by (rule nth_equalityI) (auto simp: diff_mask_def)

lemma diffBitLists_in_range:
  "length new \<le> length old \<Longrightarrow> diffBitLists old new = Inr (diff_mask old new)"
  using diffBitLists_loop_in_range [of 0 new old "[]"]
  by (simp add: diffBitLists_def map2_eq_diff_mask)

lemma diffBitLists_out_of_range:
  "length old < length new \<Longrightarrow> diffBitLists old new = Inl IndexError"
  using diffBitLists_loop_out_of_range [of 0 old new "[]"]
  by (simp add: diffBitLists_def)

subsection \<open>Separators\<close>

lemma range_count_step:
  assumes "0 < n" "0 < len"
  shows "(len + n - 1) div n = Suc ((len - n + n - 1) div n)"
proof (cases "n \<le> len")
  case True
  define k where "k = len - n + n - 1"
  with True assms have "len + n - 1 = k + n" by simp
  then have "(len + n - 1) div n = (k + n) div n" by (rule arg_cong)
  also have "\<dots> = Suc (k div n)" using assms(1) by (simp add: div_add_self2)
  finally show ?thesis by (simp only: k_def)
next
  case False
  with assms have "(len + n - 1) div n = 1"
    by (intro div_nat_eqI) auto
  moreover from False assms have "(len - n + n - 1) div n = 0" by simp
  ultimately show ?thesis by simp
qed

lemma slices_eq_chunks:
  "0 < n \<Longrightarrow> map (\<lambda>i. slice s i (i + n)) (py_range0 (length s) n) = chunks n s"
proof (induction n s rule: chunks.induct)
  case (1 n s)
  show ?case
  proof (cases "s = []")
    case True
    then show ?thesis using "1.prems" by (simp add: py_range0_def chunks.simps)
  next
    case False
    let ?m = "(length (drop n s) + n - 1) div n"
    have cnt: "(length s + n - 1) div n = Suc ?m"
      using range_count_step [of n "length s"] "1.prems" False by simp
    have "map (\<lambda>i. slice s i (i + n)) (py_range0 (length s) n) =
          map (\<lambda>k. slice s (k * n) (k * n + n)) [0 ..< Suc ?m]"
      by (simp only: py_range0_def cnt map_map comp_def)
    also have "[0 ..< Suc ?m] = 0 # map Suc [0 ..< ?m]"
      by (simp only: map_Suc_upt upt_conv_Cons zero_less_Suc)
    also have "map (\<lambda>k. slice s (k * n) (k * n + n)) (0 # map Suc [0 ..< ?m]) =
               take n s # map (\<lambda>k. slice (drop n s) (k * n) (k * n + n)) [0 ..< ?m]"
      by (simp add: slice_def comp_def add.commute)
    also have "map (\<lambda>k. slice (drop n s) (k * n) (k * n + n)) [0 ..< ?m] = chunks n (drop n s)"
      using "1.IH" "1.prems" False by (simp add: py_range0_def comp_def)
    finally show ?thesis
      using False "1.prems" by (subst chunks.simps) simp
  qed
qed

lemma insertSeperators_chunks:
  "0 < n \<Longrightarrow> insertSeperators s n sep = Inr (py_join sep (chunks (nat n) s))"
  by (simp add: insertSeperators_def slices_eq_chunks)

lemma concat_chunks: "0 < n \<Longrightarrow> concat (chunks n s) = s"
proof (induction n s rule: chunks.induct)
  case (1 n s)
  then show ?case by (subst chunks.simps) auto
qed

lemma chunks_Nil_iff: "0 < n \<Longrightarrow> chunks n s = [] \<longleftrightarrow> s = []"
  by (subst chunks.simps) simp

lemma chunks_lengths:
  "0 < n \<Longrightarrow> c \<in> set (chunks n s) \<Longrightarrow> 0 < length c \<and> length c \<le> n"
proof (induction n s rule: chunks.induct)
  case (1 n s)
  from "1.prems" have ne: "s \<noteq> []" by (subst (asm) chunks.simps) (auto split: if_splits)
  have eq: "chunks n s = take n s # chunks n (drop n s)"
    using ne "1.prems"(1) by (subst chunks.simps) simp
  with "1.prems" have "c = take n s \<or> c \<in> set (chunks n (drop n s))"
    by simp
  then show ?case using "1.IH" "1.prems"(1) ne by auto
qed

lemma chunks_butlast_lengths:
  "0 < n \<Longrightarrow> c \<in> set (butlast (chunks n s)) \<Longrightarrow> length c = n"
proof (induction n s rule: chunks.induct)
  case (1 n s)
  from "1.prems" have ne: "s \<noteq> []" by (subst (asm) chunks.simps) (auto split: if_splits)
  have eq: "chunks n s = take n s # chunks n (drop n s)"
    using ne "1.prems"(1) by (subst chunks.simps) simp
  show ?case
  proof (cases "chunks n (drop n s) = []")
    case True
    with eq "1.prems" show ?thesis by simp
  next
    case False
    then have "drop n s \<noteq> []" using "1.prems"(1) by (simp add: chunks_Nil_iff)
    then have "length (take n s) = n" by simp
    with False eq "1.prems" "1.IH" ne show ?thesis by auto
  qed
qed

lemma remove_seps_join_chunks:
  "0 < n \<Longrightarrow> remove_seps n (length sep) (py_join sep (chunks n s)) = s"
proof (induction n s rule: chunks.induct)
  case (1 n s)
  show ?case
  proof (cases "s = []")
    case True
    then show ?thesis by (simp add: chunks.simps remove_seps.simps)
  next
    case False
    have eq: "chunks n s = take n s # chunks n (drop n s)"
      using False "1.prems" by (subst chunks.simps) simp
    show ?thesis
    proof (cases "drop n s = []")
      case True
      then have "chunks n (drop n s) = []" by (simp add: chunks.simps)
      with eq True show ?thesis by (simp add: remove_seps.simps)
    next
      case d: False
      then obtain y ys where ys: "chunks n (drop n s) = y # ys"
        using "1.prems" chunks_Nil_iff [of n "drop n s"] by (cases "chunks n (drop n s)") auto
      from d have len: "length (take n s) = n" "n < length s" by simp_all
      from ys "1.prems" have "y \<noteq> []"
        using chunks_lengths [of n y "drop n s"] by auto
      have j: "py_join sep (chunks n s) = take n s @ sep @ py_join sep (chunks n (drop n s))"
        by (simp add: eq ys)
      have "py_join sep (y # ys) \<noteq> []"
        using \<open>y \<noteq> []\<close> by (simp add: py_join_Cons)
      then have big: "\<not> (n = 0 \<or> length (py_join sep (chunks n s)) \<le> n)"
        using len "1.prems" by (simp add: j ys)
      have tk: "take n (py_join sep (chunks n s)) = take n s"
        using len(1) by (simp add: j)
      have dr: "drop (n + length sep) (py_join sep (chunks n s)) = py_join sep (chunks n (drop n s))"
        using len(1) by (simp add: j)
      have "remove_seps n (length sep) (py_join sep (chunks n s)) =
            take n (py_join sep (chunks n s)) @
              remove_seps n (length sep) (drop (n + length sep) (py_join sep (chunks n s)))"
        using big by (subst remove_seps.simps) (simp only: if_False)
      also have "\<dots> = take n s @ remove_seps n (length sep) (py_join sep (chunks n (drop n s)))"
        by (simp only: tk dr)
      also have "\<dots> = take n s @ drop n s"
        using "1.IH" "1.prems" False by simp
      finally show ?thesis by simp
    qed
  qed
qed

lemma py_join_Nil: "py_join [] xs = concat xs"
  by (cases xs) (simp_all add: py_join_Cons)

lemma main_iter_emit:
  assumes "parseLine line = Some frame" "hexListToBitList (data frame) = Inr new_bit_list"
    "last_bit_lists st (id_f frame) = Some old_bit_list" "new_bit_list \<noteq> old_bit_list"
    "diffBitLists old_bit_list new_bit_list = Inr diff_bit_list"
  shows "\<exists>by4 grouped.
       insertSeperators (concat diff_bit_list) 4 '' '' = Inr by4 \<and>
       insertSeperators by4 10 ''| '' = Inr grouped \<and>
       main_iter True timestamp line st =
         (stdout_write (timestamp @ ''  '' @ id_f frame @ '': | '' @ grouped @ '' |'' @ [CHR 0x0A])
            (st\<lparr>last_bit_lists := (last_bit_lists st)(id_f frame \<mapsto> new_bit_list)\<rparr>), None)"
proof -
  obtain by4 where b: "insertSeperators (concat diff_bit_list) 4 '' '' = Inr by4"
    by (simp add: insertSeperators_def)
  obtain grouped where g: "insertSeperators by4 10 ''| '' = Inr grouped"
    by (simp add: insertSeperators_def)
  from assms b g have "main_iter True timestamp line st =
         (stdout_write (timestamp @ ''  '' @ id_f frame @ '': | '' @ grouped @ '' |'' @ [CHR 0x0A])
            (st\<lparr>last_bit_lists := (last_bit_lists st)(id_f frame \<mapsto> new_bit_list)\<rparr>), None)"
    by (simp add: main_iter_def py_join_Nil Let_def)
  with b g show ?thesis by blast
qed

subsection \<open>Hex to bits\<close>

lemma hexdig_value_all:
  "\<forall>c\<in>set ''0123456789abcdef''. hex_digit_value c = Some (digit_value c) \<and> digit_value c < 16"
  by code_simp

lemma hexdig_value:
  "hexdig c \<Longrightarrow> hex_digit_value c = Some (digit_value c) \<and> digit_value c < 16"
  using hexdig_value_all unfolding hexdig_def by blast

lemma hexdig_not_sign: "hexdig c \<Longrightarrow> c \<noteq> CHR ''+'' \<and> c \<noteq> CHR ''-''"
  by (auto simp: hexdig_def)

lemma py_int16_hex2:
  assumes "hex2 h"
  shows "py_int16 h = Inr (int (hex_value h)) \<and> hex_value h < 256"
proof -
  from assms obtain a b where h: "h = [a, b]" "hexdig a" "hexdig b"
    by (auto simp: hex2_iff)
  have sp: "\<not> py_isspace a" "\<not> py_isspace b"
    using h by (simp_all add: hexdig_not_space)
  have "hex_digits_value 0 [a, b] = Some (16 * digit_value a + digit_value b)"
    using hexdig_value [OF h(2)] hexdig_value [OF h(3)] by simp
  moreover have "16 * digit_value a + digit_value b < 256"
    using hexdig_value [OF h(2)] hexdig_value [OF h(3)] by simp
  ultimately show ?thesis
    using sp hexdig_not_sign [OF h(2)]
    by (simp add: h(1) py_int16_def strip_0x_def hex_value_def)
qed

lemma msb_bits_zero: "msb_bits w 0 = replicate w CHR ''0''"
  by (induction w) (simp_all add: bit_char_def replicate_append_same)

lemma bin_digits_pad:
  "v < 2 ^ w \<Longrightarrow> 0 < w \<Longrightarrow>
   length (bin_digits v) \<le> w \<and>
   replicate (w - length (bin_digits v)) CHR ''0'' @ bin_digits v = msb_bits w v"
proof (induction w arbitrary: v)
  case 0
  then show ?case by simp
next
  case (Suc w)
  show ?case
  proof (cases "v < 2")
    case True
    then have "bin_digits v = [bit_char v]" "v div 2 = 0" "v mod 2 = v"
      by (simp_all add: bin_digits.simps)
    then show ?thesis by (simp add: msb_bits_zero)
  next
    case False
    then have b: "bin_digits v = bin_digits (v div 2) @ [bit_char (v mod 2)]"
      by (subst bin_digits.simps) simp
    from False Suc.prems have w: "0 < w" by (cases w) auto
    from Suc.prems have "v div 2 < 2 ^ w" by simp
    from Suc.IH [OF this w] show ?thesis
      by (simp add: b Suc_diff_le)
  qed
qed

lemma bin_digits_chars: "set (bin_digits v) \<subseteq> {CHR ''0'', CHR ''1''}"
proof (induction v rule: bin_digits.induct)
  case (1 n)
  then show ?case by (subst bin_digits.simps) (auto simp: bit_char_def)
qed

lemma bin_digits_not_Nil: "bin_digits v \<noteq> []"
  by (subst bin_digits.simps) simp

lemma bit_char_mod2: "bit_char (n mod 2) = (if odd n then CHR ''1'' else CHR ''0'')"
  by (auto simp: bit_char_def odd_iff_mod_2_eq_one)

lemma msb_bits_8: "msb_bits 8 v = byte_bits v"
proof -
  have "msb_bits (Suc (Suc (Suc (Suc (Suc (Suc (Suc (Suc 0)))))))) v = byte_bits v"
    by (simp add: byte_bits_def bit_char_mod2 div_mult2_eq [symmetric])
  moreover have "(8::nat) = Suc (Suc (Suc (Suc (Suc (Suc (Suc (Suc 0)))))))"
    by simp
  ultimately show ?thesis by (simp only:)
qed

lemma zfill_bin:
  assumes "v < 256"
  shows "zfill 8 (drop 2 (py_bin (int v))) = byte_bits v"
proof -
  have p: "drop 2 (py_bin (int v)) = bin_digits v"
    by (simp add: py_bin_def)
  from assms have "v < 2 ^ 8" by simp
  from bin_digits_pad [OF this] have
    l: "length (bin_digits v) \<le> 8" and
    r: "replicate (8 - length (bin_digits v)) CHR ''0'' @ bin_digits v = msb_bits 8 v"
    by simp_all
  obtain c cs where c: "bin_digits v = c # cs"
    using bin_digits_not_Nil [of v] by (cases "bin_digits v") auto
  with bin_digits_chars [of v] have s: "c \<noteq> CHR ''+''" "c \<noteq> CHR ''-''" by auto
  have "zfill 8 (bin_digits v) = replicate (8 - length (bin_digits v)) CHR ''0'' @ bin_digits v"
    using l s by (auto simp: zfill_def c)
  then show ?thesis by (simp only: p r msb_bits_8)
qed

lemma hexListToBitList_loop_hex2:
  "\<forall>h\<in>set hs. hex2 h \<Longrightarrow>
   hexListToBitList_loop res hs =
     Inr (res @ concat (map (\<lambda>h. map (\<lambda>c. [c]) (byte_bits (hex_value h))) hs))"
proof (induction hs arbitrary: res)
  case Nil
  then show ?case by simp
next
  case (Cons h hs)
  then have h: "hex2 h" and hs: "\<forall>h\<in>set hs. hex2 h" by simp_all
  have i: "py_int16 h = Inr (int (hex_value h))" and v: "hex_value h < 256"
    using py_int16_hex2 [OF h] by simp_all
  have z: "zfill 8 (drop 2 (py_bin (int (hex_value h)))) = byte_bits (hex_value h)"
    using v by (rule zfill_bin)
  show ?case
    by (simp add: i z Cons.IH [OF hs])
qed

lemma hexListToBitList_hex2:
  "\<forall>h\<in>set hs. hex2 h \<Longrightarrow>
   hexListToBitList hs = Inr (concat (map (\<lambda>h. map (\<lambda>c. [c]) (byte_bits (hex_value h))) hs))"
  by (simp add: hexListToBitList_def hexListToBitList_loop_hex2)

lemma length_bits: "length (concat (map (\<lambda>h. map (\<lambda>c. [c]) (byte_bits (hex_value h))) hs)) = 8 * length hs"
  by (induction hs) (simp_all add: byte_bits_def)

subsection \<open>The loop body\<close>

lemma parseLine_bits:
  assumes "parseLine line = Some frame"
  shows "\<exists>bits. hexListToBitList (data frame) = Inr bits"
  using parseLine_Some [OF assms] hexListToBitList_hex2 [of "data frame"] by blast

lemma main_iter_first:
  assumes "parseLine line = Some frame" "hexListToBitList (data frame) = Inr bits"
    "last_bit_lists st (id_f frame) = None"
  shows "main_iter True timestamp line st =
           (st\<lparr>last_bit_lists := (last_bit_lists st)(id_f frame \<mapsto> bits)\<rparr>, None)"
  using assms by (simp add: main_iter_def)

lemma main_iter_same:
  assumes "parseLine line = Some frame" "hexListToBitList (data frame) = Inr bits"
    "last_bit_lists st (id_f frame) = Some bits"
  shows "main_iter True timestamp line st = (st, None)"
proof -
  have "(last_bit_lists st)(id_f frame \<mapsto> bits) = last_bit_lists st"
    using assms(3) by (rule map_upd_triv)
  then show ?thesis
    using assms by (simp add: main_iter_def)
qed

lemma main_iter_history:
  assumes "parseLine line = Some frame" "hexListToBitList (data frame) = Inr bits"
  shows "last_bit_lists (fst (main_iter True timestamp line st)) =
           (last_bit_lists st)(id_f frame \<mapsto> bits)"
proof (cases "last_bit_lists st (id_f frame)")
  case None
  with assms show ?thesis by (simp add: main_iter_first)
next
  case (Some old)
  show ?thesis
  proof (cases "bits = old")
    case True
    with assms Some show ?thesis by (simp add: main_iter_def)
  next
    case False
    with assms Some show ?thesis
      by (simp add: main_iter_def stdout_write_def Let_def split: sum.splits)
  qed
qed

subsection \<open>Lines read from the port\<close>

lemma readLine_loop_no_line_feed:
  "readLine_loop acc fd = Some (line, rest) \<Longrightarrow> CHR 0x0A \<notin> set acc \<Longrightarrow> CHR 0x0A \<notin> set line"
  by (induction acc fd rule: readLine_loop.induct) (auto split: if_splits)

lemma readLine_no_line_feed: "readLine fd = Some (line, rest) \<Longrightarrow> CHR 0x0A \<notin> set line"
  using readLine_loop_no_line_feed [of "[]" fd line rest] by (simp add: readLine_def)

subsection \<open>Text after a frame\<close>

lemma hexdig_not_newline: "hexdig c \<Longrightarrow> c \<noteq> CHR 0x0A"
  by (auto simp: hexdig_def)

lemma chop_newline_dollar: "dollar t \<Longrightarrow> chop_newline t = []"
  by (auto simp: dollar_def chop_newline_def)

lemma chop_newline_group:
  "b \<noteq> CHR 0x0A \<Longrightarrow> chop_newline (sp # a # b # r) = sp # a # b # chop_newline r"
  by (simp add: chop_newline_def)

lemma groups_then_tail_Some_form:
  "groups_then_tail s \<noteq> None \<or> tail_match s \<noteq> None \<Longrightarrow>
   \<exists>a b r. s = CHR '' '' # a # b # r \<and> hexdig a \<and> hexdig b"
proof (cases s rule: plus_groups.cases)
  case (1 sp a b r)
  assume h: "groups_then_tail s \<noteq> None \<or> tail_match s \<noteq> None"
  show ?thesis
  proof (cases "sp = CHR '' '' \<and> hexdig a \<and> hexdig b")
    case True
    with 1 show ?thesis by simp
  next
    case False
    with 1 have "groups_then_tail s = None" "tail_match s = None"
      by (auto simp: groups_then_tail_def)
    with h show ?thesis by simp
  qed
qed (auto simp: groups_then_tail_def split: if_splits)

lemma groups_then_tail_group_iff:
  "hexdig a \<Longrightarrow> hexdig b \<Longrightarrow>
   groups_then_tail (CHR '' '' # a # b # r) \<noteq> None \<longleftrightarrow>
     (groups_then_tail r \<noteq> None \<or> tail_match r \<noteq> None)"
  by (simp add: groups_then_tail_group split: option.splits)

lemma after_group_more_groups:
  "groups_then_tail (CHR '' '' # a # b # s) \<noteq> None \<or> tail_match (CHR '' '' # a # b # s) \<noteq> None \<Longrightarrow>
   hexdig a \<Longrightarrow> hexdig b \<Longrightarrow> more_groups (chop_newline s)"
proof (induction s arbitrary: a b rule: plus_groups.induct)
  case (1 sp a' b' r)
  show ?case
  proof (cases "dollar (sp # a' # b' # r)")
    case True
    then show ?thesis by (simp add: chop_newline_dollar)
  next
    case False
    with "1.prems" have "tail_match (CHR '' '' # a # b # sp # a' # b' # r) = None"
      by simp
    with "1.prems" have "groups_then_tail (CHR '' '' # a # b # sp # a' # b' # r) \<noteq> None"
      by blast
    then have n: "groups_then_tail (sp # a' # b' # r) \<noteq> None \<or> tail_match (sp # a' # b' # r) \<noteq> None"
      using groups_then_tail_group_iff [OF "1.prems"(2,3), of "sp # a' # b' # r"] by blast
    from groups_then_tail_Some_form [OF n] have g: "sp = CHR '' ''" "hexdig a'" "hexdig b'"
      by auto
    have c: "sp = CHR '' '' \<and> hexdig a' \<and> hexdig b'"
      using g by simp
    have n': "groups_then_tail (CHR '' '' # a' # b' # r) \<noteq> None \<or>
              tail_match (CHR '' '' # a' # b' # r) \<noteq> None"
      using n unfolding g(1) .
    from "1.IH" [OF c n' g(2) g(3)] have "more_groups (chop_newline r)" .
    then show ?thesis
      using g by (simp add: chop_newline_group hexdig_not_newline)
  qed
qed (auto simp: groups_then_tail_group groups_then_tail_def chop_newline_def dollar_def
    split: option.splits if_splits)

lemma after_groups_more_groups:
  "bs \<noteq> [] \<Longrightarrow> \<forall>b\<in>set bs. hex2 b \<Longrightarrow>
   groups_then_tail (groups bs @ s) \<noteq> None \<or> tail_match (groups bs @ s) \<noteq> None \<Longrightarrow>
   more_groups (chop_newline s)"
proof (induction bs)
  case Nil
  then show ?case by simp
next
  case (Cons b bs)
  from Cons.prems obtain x y where b: "b = [x, y]" "hexdig x" "hexdig y"
    by (auto simp: hex2_iff)
  show ?case
  proof (cases "bs = []")
    case True
    with Cons.prems(3) b show ?thesis
      by (intro after_group_more_groups [of x y s]) auto
  next
    case False
    then obtain b' bs' where bs: "bs = b' # bs'" by (cases bs) auto
    with Cons.prems obtain x' y' where b': "b' = [x', y']" by (auto simp: hex2_iff)
    have nd: "\<not> dollar (groups bs @ s)" by (simp add: bs b')
    with Cons.prems(3) b have "groups_then_tail (CHR '' '' # x # y # groups bs @ s) \<noteq> None"
      by auto
    then have "groups_then_tail (groups bs @ s) \<noteq> None \<or> tail_match (groups bs @ s) \<noteq> None"
      using groups_then_tail_group_iff [OF b(2,3), of "groups bs @ s"] by blast
    with Cons.IH False Cons.prems(2) show ?thesis by simp
  qed
qed

lemma parseLine_frame_suffix:
  assumes "hex2 i" "\<forall>b\<in>set bs. hex2 b" "hex2 ck"
    "parseLine (frame_line i bs ck @ suffix) \<noteq> None"
  shows "more_groups (chop_newline suffix)"
proof -
  have l: "frame_line i bs ck @ suffix = i @ groups (bs @ [ck]) @ suffix"
    by (simp add: frame_line_eq groups_def)
  from assms(4) have "groups_then_tail (groups (bs @ [ck]) @ suffix) \<noteq> None"
    using assms(1)
    by (auto simp: l parseLine_def kFrameRegex_match_def hex2_prefix_hex2 split: option.splits)
  then show ?thesis
    using assms(2,3) by (intro after_groups_more_groups [of "bs @ [ck]"]) auto
qed

lemma more_groups_groups:
  "more_groups g \<Longrightarrow> \<exists>gs. (\<forall>b\<in>set gs. hex2 b) \<and> g = groups gs"
proof (induction g rule: more_groups.induct)
  case 1
  have "(\<forall>b\<in>set []. hex2 b) \<and> [] = groups []" by simp
  then show ?case by blast
next
  case (2 sp a b r)
  then obtain gs where gs: "\<forall>x\<in>set gs. hex2 x" "r = groups gs" by auto
  from 2 have "(\<forall>x\<in>set ([a, b] # gs). hex2 x) \<and> sp # a # b # r = groups ([a, b] # gs)"
    using gs by (simp add: hex2_iff)
  then show ?case by blast
qed simp_all

lemma chop_newline_split: "\<exists>t. dollar t \<and> s = chop_newline s @ t"
proof (cases "s \<noteq> [] \<and> last s = CHR 0x0A")
  case True
  then have "dollar [CHR 0x0A] \<and> s = chop_newline s @ [CHR 0x0A]"
    using append_butlast_last_id [of s] by (simp add: chop_newline_def)
  then show ?thesis by blast
next
  case False
  then have "dollar [] \<and> s = chop_newline s @ []"
    by (auto simp: chop_newline_def)
  then show ?thesis by blast
qed

lemma groups_append: "groups (xs @ ys) = groups xs @ groups ys"
  by (simp add: groups_def)

lemma parseLine_frame_more_groups:
  assumes "hex2 i" "bs \<noteq> []" "\<forall>b\<in>set bs. hex2 b" "hex2 ck" "more_groups (chop_newline suffix)"
  shows "parseLine (frame_line i bs ck @ suffix) \<noteq> None"
proof -
  from more_groups_groups [OF assms(5)] obtain gs where
    gs: "\<forall>b\<in>set gs. hex2 b" "chop_newline suffix = groups gs" by blast
  from chop_newline_split [of suffix] gs(2) obtain t where
    t: "dollar t" "suffix = groups gs @ t" by auto
  show ?thesis
  proof (cases "gs = []")
    case True
    with t assms show ?thesis by (simp add: parseLine_frame_line)
  next
    case False
    let ?bs = "bs @ ck # butlast gs"
    have g: "gs = butlast gs @ [last gs]" using False by simp
    have "groups gs = groups (butlast gs) @ CHR '' '' # last gs"
      by (subst g) (simp only: groups_append groups_simps append_Nil2)
    then have "frame_line i bs ck @ suffix = frame_line i ?bs (last gs) @ t"
      by (simp add: frame_line_eq t(2) groups_append)
    moreover have "\<forall>b\<in>set ?bs. hex2 b" "hex2 (last gs)"
      using assms(3,4) gs(1) False by (auto dest: in_set_butlastD)
    ultimately show ?thesis
      using assms(1) t(1) by (simp add: parseLine_frame_line)
  qed
qed

section \<open>The claims\<close>

text \<open>
  Claim C1. Every line \<^verbatim>\<open>ID B1 ... Bn CK\<close> of fields of two lowercase hex digits,
  with at least one \<open>Bi\<close> and single spaces between the fields, is parsed to the frame
  with identifier \<open>ID\<close>, data \<open>[B1, ..., Bn]\<close> and checksum \<open>CK\<close>. \<^verbatim>\<open>parseLine\<close>
  gives \<open>None\<close> for every line with an uppercase hex digit in it, for every line
  \<^verbatim>\<open>ID CK\<close> with no data byte, and for every line whose last token is not a group of
  two hex digits. The tokens are those of \<^verbatim>\<open>split()\<close>, which the script itself uses on
  the data: a line feed is white space and belongs to no token. For a line with no line
  feed in it, which is every line \<^verbatim>\<open>readLine\<close> returns, the same holds of the text
  after its last space.
\<close>

theorem C1_parseLine_accepts_and_rejects:
  "(hex2 i \<and> bs \<noteq> [] \<and> (\<forall>b\<in>set bs. hex2 b) \<and> hex2 ck \<longrightarrow>
      parseLine (frame_line i bs ck) = Some \<lparr>id_f = i, data = bs, checksum = ck\<rparr>) \<and>
   ((\<exists>c\<in>set line. upper_hexdig c) \<longrightarrow> parseLine line = None) \<and>
   (hex2 i \<and> hex2 ck \<longrightarrow> parseLine (frame_line i [] ck) = None) \<and>
   ((case trailing_token line of None \<Rightarrow> True | Some tok \<Rightarrow> \<not> hex2 tok) \<longrightarrow>
      parseLine line = None) \<and>
   (CHR 0x0A \<notin> set line \<and> \<not> hex2 (last_field line) \<longrightarrow> parseLine line = None)"
proof (intro conjI impI)
  assume "hex2 i \<and> bs \<noteq> [] \<and> (\<forall>b\<in>set bs. hex2 b) \<and> hex2 ck"
  then show "parseLine (frame_line i bs ck) = Some \<lparr>id_f = i, data = bs, checksum = ck\<rparr>"
    using parseLine_frame_line [of i bs ck "[]"] by simp
next
  assume "\<exists>c\<in>set line. upper_hexdig c"
  then obtain c where c: "c \<in> set line" "upper_hexdig c" by blast
  show "parseLine line = None"
  proof (cases "parseLine line")
    case (Some fr)
    from parseLine_chars [OF Some c(1)] c(2) show ?thesis
      using hexdig_cases [of c] by (auto simp: upper_hexdig_def)
  qed simp
next
  assume "hex2 i \<and> hex2 ck"
  then show "parseLine (frame_line i [] ck) = None"
    by (simp add: parseLine_no_data)
next
  assume a: "case trailing_token line of None \<Rightarrow> True | Some tok \<Rightarrow> \<not> hex2 tok"
  show "parseLine line = None"
  proof (cases "parseLine line")
    case (Some fr)
    from parseLine_trailing_token [OF Some] parseLine_Some [OF Some] a show ?thesis
      by simp
  qed simp
next
  assume a: "CHR 0x0A \<notin> set line \<and> \<not> hex2 (last_field line)"
  show "parseLine line = None"
  proof (cases "parseLine line")
    case (Some fr)
    from parseLine_last_field [OF Some] parseLine_Some [OF Some] a show ?thesis
      by simp
  qed simp
qed

theorem C1_parseLine_accepts_and_rejects_witness:
  "parseLine ''2a 01 02 ff'' = Some \<lparr>id_f = ''2a'', data = [''01'', ''02''], checksum = ''ff''\<rparr> \<and>
   parseLine ''2A 01 02 ff'' = None \<and>
   parseLine ''2a ff'' = None \<and>
   parseLine ''2a 01 02 ERR'' = None"
  using C1_parseLine_accepts_and_rejects [of "''2a''" "[''01'', ''02'']" "''ff''" "''2A 01 02 ff''"]
    C1_parseLine_accepts_and_rejects [of "''2a''" "[]" "''ff''" "''2a 01 02 ERR''"]
  by (simp add: hex2_def hexdig_def frame_line_def upper_hexdig_def trailing_token_def
      py_split_def py_isspace_def)

text \<open>
  Claim C2. For an old and a new bit sequence of the same length, \<^verbatim>\<open>diffBitLists\<close>
  returns a mask of that length which holds, at every position, the new bit where it
  differs from the old one and \<^verbatim>\<open>-\<close> elsewhere. This holds whether or not the two
  are equal (\<^verbatim>\<open>main\<close> calls it only when they are not). Old \<^verbatim>\<open>0000\<close> and new
  \<^verbatim>\<open>0100\<close> give \<^verbatim>\<open>-1--\<close>.
\<close>

theorem C2_diffBitLists_same_length:
  "(length old_sequence = length new_sequence \<longrightarrow>
      (\<exists>mask. diffBitLists old_sequence new_sequence = Inr mask \<and>
         length mask = length new_sequence \<and>
         (\<forall>i < length new_sequence.
            mask ! i = (if new_sequence ! i \<noteq> old_sequence ! i then new_sequence ! i else ''-'')))) \<and>
   diffBitLists [''0'', ''0'', ''0'', ''0''] [''0'', ''1'', ''0'', ''0''] = Inr [''-'', ''1'', ''-'', ''-'']"
proof (intro conjI impI)
  assume "length old_sequence = length new_sequence"
  then have "diffBitLists old_sequence new_sequence = Inr (diff_mask old_sequence new_sequence)"
    by (simp add: diffBitLists_in_range)
  then show "\<exists>mask. diffBitLists old_sequence new_sequence = Inr mask \<and>
         length mask = length new_sequence \<and>
         (\<forall>i < length new_sequence.
            mask ! i = (if new_sequence ! i \<noteq> old_sequence ! i then new_sequence ! i else ''-''))"
    by (simp add: diff_mask_def)
next
  show "diffBitLists [''0'', ''0'', ''0'', ''0''] [''0'', ''1'', ''0'', ''0''] = Inr [''-'', ''1'', ''-'', ''-'']"
    by (simp add: diffBitLists_def index_def)
qed

theorem C2_diffBitLists_same_length_witness:
  "\<exists>mask. diffBitLists [''1'', ''0''] [''1'', ''1''] = Inr mask \<and> length mask = 2 \<and>
     mask ! 0 = ''-'' \<and> mask ! 1 = ''1''"
  using C2_diffBitLists_same_length [of "[''1'', ''0'']" "[''1'', ''1'']"]
  by (auto simp: less_Suc_eq numeral_2_eq_2)

text \<open>
  Claim C3. In diff mode, for every line that parses to a frame, the bit list of its
  data exists, and after the loop body the history table is the one before with the
  frame's identifier mapped to that bit list, whatever the table held for it and whether
  or not a diff was written (and also when \<^verbatim>\<open>diffBitLists\<close> raised: the table is
  written first). When the identifier had no entry, nothing is written to the
  output and nothing is raised.
\<close>

theorem C3_history_holds_latest_frame:
  "parseLine line = Some frame \<longrightarrow>
     (\<exists>bits. hexListToBitList (data frame) = Inr bits \<and>
        last_bit_lists (fst (main_iter True timestamp line st)) =
          (last_bit_lists st)(id_f frame \<mapsto> bits) \<and>
        (last_bit_lists st (id_f frame) = None \<longrightarrow>
           main_iter True timestamp line st =
             (st\<lparr>last_bit_lists := (last_bit_lists st)(id_f frame \<mapsto> bits)\<rparr>, None) \<and>
           stdout (fst (main_iter True timestamp line st)) = stdout st))"
proof
  assume p: "parseLine line = Some frame"
  from parseLine_bits [OF p] obtain bits where b: "hexListToBitList (data frame) = Inr bits" ..
  show "\<exists>bits. hexListToBitList (data frame) = Inr bits \<and>
        last_bit_lists (fst (main_iter True timestamp line st)) =
          (last_bit_lists st)(id_f frame \<mapsto> bits) \<and>
        (last_bit_lists st (id_f frame) = None \<longrightarrow>
           main_iter True timestamp line st =
             (st\<lparr>last_bit_lists := (last_bit_lists st)(id_f frame \<mapsto> bits)\<rparr>, None) \<and>
           stdout (fst (main_iter True timestamp line st)) = stdout st)"
  proof (intro exI [of _ bits] conjI impI)
    show "hexListToBitList (data frame) = Inr bits" by (rule b)
    show "last_bit_lists (fst (main_iter True timestamp line st)) =
          (last_bit_lists st)(id_f frame \<mapsto> bits)"
      by (rule main_iter_history [OF p b])
  next
    assume n: "last_bit_lists st (id_f frame) = None"
    show "main_iter True timestamp line st =
             (st\<lparr>last_bit_lists := (last_bit_lists st)(id_f frame \<mapsto> bits)\<rparr>, None)"
      by (rule main_iter_first [OF p b n])
    then show "stdout (fst (main_iter True timestamp line st)) = stdout st"
      by simp
  qed
qed

theorem C3_history_holds_latest_frame_witness:
  "last_bit_lists (fst (main_iter True ''00000.001'' ''2a 01 02 ff'' init_state)) ''2a'' =
     Some [''0'', ''0'', ''0'', ''0'', ''0'', ''0'', ''0'', ''1'',
           ''0'', ''0'', ''0'', ''0'', ''0'', ''0'', ''1'', ''0''] \<and>
   stdout (fst (main_iter True ''00000.001'' ''2a 01 02 ff'' init_state)) = []"
proof -
  let ?fr = "\<lparr>id_f = ''2a'', data = [''01'', ''02''], checksum = ''ff''\<rparr>"
  have p: "parseLine ''2a 01 02 ff'' = Some ?fr" by code_simp
  have h: "hexListToBitList (data ?fr) =
     Inr [''0'', ''0'', ''0'', ''0'', ''0'', ''0'', ''0'', ''1'',
          ''0'', ''0'', ''0'', ''0'', ''0'', ''0'', ''1'', ''0'']" by code_simp
  from C3_history_holds_latest_frame [of "''2a 01 02 ff''" ?fr "''00000.001''" init_state] p h
  show ?thesis by (simp add: init_state_def)
qed

text \<open>
  Claim C4. For a list of \<open>N\<close> strings of two lowercase hex digits each,
  \<^verbatim>\<open>hexListToBitList\<close> returns a bit list of length \<open>8N\<close>: for each string in order,
  the eight binary digits of its value, which is at most 255, the most significant first
  and with zeros on the left, each digit a string of its own. \<^verbatim>\<open>ff\<close> gives
  \<^verbatim>\<open>11111111\<close>, \<^verbatim>\<open>00\<close> gives \<^verbatim>\<open>00000000\<close> and \<^verbatim>\<open>0a\<close> gives \<^verbatim>\<open>00001010\<close>.
\<close>

theorem C4_hexListToBitList_bits:
  "((\<forall>h\<in>set hex_list. hex2 h) \<longrightarrow>
     (\<exists>bits. hexListToBitList hex_list = Inr bits \<and>
        length bits = 8 * length hex_list \<and>
        bits = concat (map (\<lambda>h. map (\<lambda>c. [c]) (byte_bits (hex_value h))) hex_list) \<and>
        (\<forall>h\<in>set hex_list. hex_value h \<le> 255))) \<and>
   hexListToBitList [''ff''] = Inr [''1'', ''1'', ''1'', ''1'', ''1'', ''1'', ''1'', ''1''] \<and>
   hexListToBitList [''00''] = Inr [''0'', ''0'', ''0'', ''0'', ''0'', ''0'', ''0'', ''0''] \<and>
   hexListToBitList [''0a''] = Inr [''0'', ''0'', ''0'', ''0'', ''1'', ''0'', ''1'', ''0'']"
proof (intro conjI)
  show "(\<forall>h\<in>set hex_list. hex2 h) \<longrightarrow>
     (\<exists>bits. hexListToBitList hex_list = Inr bits \<and>
        length bits = 8 * length hex_list \<and>
        bits = concat (map (\<lambda>h. map (\<lambda>c. [c]) (byte_bits (hex_value h))) hex_list) \<and>
        (\<forall>h\<in>set hex_list. hex_value h \<le> 255))"
    using hexListToBitList_hex2 [of hex_list] length_bits [of hex_list] py_int16_hex2
    by fastforce
  show "hexListToBitList [''ff''] = Inr [''1'', ''1'', ''1'', ''1'', ''1'', ''1'', ''1'', ''1'']"
    by code_simp
  show "hexListToBitList [''00''] = Inr [''0'', ''0'', ''0'', ''0'', ''0'', ''0'', ''0'', ''0'']"
    by code_simp
  show "hexListToBitList [''0a''] = Inr [''0'', ''0'', ''0'', ''0'', ''1'', ''0'', ''1'', ''0'']"
    by code_simp
qed

theorem C4_hexListToBitList_bits_witness:
  "\<exists>bits. hexListToBitList [''ff'', ''00'', ''0a''] = Inr bits \<and> length bits = 24"
proof -
  have h: "\<forall>h\<in>set [''ff'', ''00'', ''0a'']. hex2 h"
    by code_simp
  from C4_hexListToBitList_bits [of "[''ff'', ''00'', ''0a'']"] h
  obtain bits where b: "hexListToBitList [''ff'', ''00'', ''0a''] = Inr bits"
    and l: "length bits = 8 * length [''ff'', ''00'', ''0a'']"
    by blast
  from l have "length bits = 24" by simp
  with b show ?thesis by blast
qed

text \<open>
  Claim C5. Grouping is two passes, the second over the output of the first: sixteen
  zeros become \<^verbatim>\<open>0000 0000 0000 0000\<close> by fours with a space, and that string becomes
  \<^verbatim>\<open>0000 0000 | 0000 0000\<close> by tens with \<^verbatim>\<open>| \<close>. Whenever the loop body has a diff
  to show, it writes one line: the time stamp, two spaces, the identifier,
  \<^verbatim>\<open>: | \<close>, the joined mask grouped by 4 and then by 10, \<^verbatim>\<open> |\<close> and a line feed.
\<close>

theorem C5_diff_line_format:
  "insertSeperators ''0000000000000000'' 4 '' '' = Inr ''0000 0000 0000 0000'' \<and>
   insertSeperators ''0000 0000 0000 0000'' 10 ''| '' = Inr ''0000 0000 | 0000 0000'' \<and>
   (parseLine line = Some frame \<and> hexListToBitList (data frame) = Inr new_bit_list \<and>
    last_bit_lists st (id_f frame) = Some old_bit_list \<and> new_bit_list \<noteq> old_bit_list \<and>
    diffBitLists old_bit_list new_bit_list = Inr diff_bit_list \<longrightarrow>
    (\<exists>by4 grouped.
       insertSeperators (concat diff_bit_list) 4 '' '' = Inr by4 \<and>
       insertSeperators by4 10 ''| '' = Inr grouped \<and>
       main_iter True timestamp line st =
         (stdout_write (timestamp @ ''  '' @ id_f frame @ '': | '' @ grouped @ '' |'' @ [CHR 0x0A])
            (st\<lparr>last_bit_lists := (last_bit_lists st)(id_f frame \<mapsto> new_bit_list)\<rparr>), None)))"
proof (intro conjI impI)
  show "insertSeperators ''0000000000000000'' 4 '' '' = Inr ''0000 0000 0000 0000''"
    by code_simp
  show "insertSeperators ''0000 0000 0000 0000'' 10 ''| '' = Inr ''0000 0000 | 0000 0000''"
    by code_simp
next
  assume "parseLine line = Some frame \<and> hexListToBitList (data frame) = Inr new_bit_list \<and>
    last_bit_lists st (id_f frame) = Some old_bit_list \<and> new_bit_list \<noteq> old_bit_list \<and>
    diffBitLists old_bit_list new_bit_list = Inr diff_bit_list"
  then show "\<exists>by4 grouped.
       insertSeperators (concat diff_bit_list) 4 '' '' = Inr by4 \<and>
       insertSeperators by4 10 ''| '' = Inr grouped \<and>
       main_iter True timestamp line st =
         (stdout_write (timestamp @ ''  '' @ id_f frame @ '': | '' @ grouped @ '' |'' @ [CHR 0x0A])
            (st\<lparr>last_bit_lists := (last_bit_lists st)(id_f frame \<mapsto> new_bit_list)\<rparr>), None)"
    using main_iter_emit by blast
qed

theorem C5_diff_line_format_witness:
  "stdout (fst (main_iter True ''00012.345'' ''2a 00 00 ff''
      \<lparr>last_bit_lists = [''2a'' \<mapsto> replicate 16 ''1''], stdout = []\<rparr>))
   = [''00012.345  2a: | 0000 0000 | 0000 0000 |'' @ [CHR 0x0A]]"
proof -
  let ?st = "\<lparr>last_bit_lists = [''2a'' \<mapsto> replicate 16 ''1''], stdout = []\<rparr>"
  let ?fr = "\<lparr>id_f = ''2a'', data = [''00'', ''00''], checksum = ''ff''\<rparr>"
  have p: "parseLine ''2a 00 00 ff'' = Some ?fr" by code_simp
  have h: "hexListToBitList (data ?fr) = Inr (replicate 16 ''0'')" by code_simp
  have l: "last_bit_lists ?st (id_f ?fr) = Some (replicate 16 ''1'')" by simp
  have n: "replicate 16 ''0'' \<noteq> replicate 16 ''1''" by code_simp
  have d: "diffBitLists (replicate 16 ''1'') (replicate 16 ''0'') = Inr (replicate 16 ''0'')"
    by code_simp
  have c: "concat (replicate 16 ''0'') = ''0000000000000000''" by code_simp
  from C5_diff_line_format [of "''2a 00 00 ff''" ?fr "replicate 16 ''0''" ?st
      "replicate 16 ''1''" "replicate 16 ''0''" "''00012.345''"] p h l n d c
  show ?thesis by (auto simp: stdout_write_def)
qed

text \<open>
  Claim C6 says that a valid frame followed by any content, a trailing line feed
  included, is not parsed. Without the MULTILINE flag \<^verbatim>\<open>$\<close> also matches just
  before a line feed that ends the text, so a frame line with one line feed after it
  is parsed to the frame.
\<close>

theorem C6_counterexample:
  "parseLine (''2a 01 ff'' @ [CHR 0x0A]) =
     Some \<lparr>id_f = ''2a'', data = [''01''], checksum = ''ff''\<rparr>"
  by code_simp

text \<open>
  Claim C6, amended. A valid frame line followed by a suffix that is not empty is not
  parsed, unless the suffix, without one final line feed if it has one, is empty or a
  run of further fields of two lowercase hex digits, each after one space. A valid
  frame line followed by exactly one line feed is parsed to the frame of the line, and
  a suffix of the excepted kind is always parsed.
\<close>

theorem C6_trailing_content_rejected:
  "(hex2 i \<and> bs \<noteq> [] \<and> (\<forall>b\<in>set bs. hex2 b) \<and> hex2 ck \<and>
    suffix \<noteq> [] \<and> \<not> more_groups (chop_newline suffix) \<longrightarrow>
      parseLine (frame_line i bs ck @ suffix) = None) \<and>
   (hex2 i \<and> bs \<noteq> [] \<and> (\<forall>b\<in>set bs. hex2 b) \<and> hex2 ck \<longrightarrow>
      parseLine (frame_line i bs ck @ [CHR 0x0A]) =
        Some \<lparr>id_f = i, data = bs, checksum = ck\<rparr>) \<and>
   (hex2 i \<and> bs \<noteq> [] \<and> (\<forall>b\<in>set bs. hex2 b) \<and> hex2 ck \<and>
    more_groups (chop_newline suffix) \<longrightarrow>
      parseLine (frame_line i bs ck @ suffix) \<noteq> None)"
proof (intro conjI impI)
  assume a: "hex2 i \<and> bs \<noteq> [] \<and> (\<forall>b\<in>set bs. hex2 b) \<and> hex2 ck \<and>
    suffix \<noteq> [] \<and> \<not> more_groups (chop_newline suffix)"
  show "parseLine (frame_line i bs ck @ suffix) = None"
  proof (rule ccontr)
    assume "parseLine (frame_line i bs ck @ suffix) \<noteq> None"
    with a have "more_groups (chop_newline suffix)"
      by (intro parseLine_frame_suffix [of i bs ck suffix]) auto
    with a show False by simp
  qed
next
  assume "hex2 i \<and> bs \<noteq> [] \<and> (\<forall>b\<in>set bs. hex2 b) \<and> hex2 ck"
  then show "parseLine (frame_line i bs ck @ [CHR 0x0A]) =
        Some \<lparr>id_f = i, data = bs, checksum = ck\<rparr>"
    by (intro parseLine_frame_line) auto
next
  assume "hex2 i \<and> bs \<noteq> [] \<and> (\<forall>b\<in>set bs. hex2 b) \<and> hex2 ck \<and>
    more_groups (chop_newline suffix)"
  then show "parseLine (frame_line i bs ck @ suffix) \<noteq> None"
    by (intro parseLine_frame_more_groups) auto
qed

theorem C6_trailing_content_rejected_witness:
  "parseLine ''2a 01 ff ERR'' = None \<and>
   parseLine (''10 20 30'' @ [CHR 0x0A]) =
     Some \<lparr>id_f = ''10'', data = [''20''], checksum = ''30''\<rparr>"
proof -
  have h: "hex2 ''2a'' \<and> [''01''] \<noteq> [] \<and> (\<forall>b\<in>set [''01'']. hex2 b) \<and> hex2 ''ff'' \<and>
           '' ERR'' \<noteq> [] \<and> \<not> more_groups (chop_newline '' ERR'')"
    by code_simp
  have l: "frame_line ''2a'' [''01''] ''ff'' @ '' ERR'' = ''2a 01 ff ERR''"
    by code_simp
  have h': "hex2 ''10'' \<and> [''20''] \<noteq> [] \<and> (\<forall>b\<in>set [''20'']. hex2 b) \<and> hex2 ''30''"
    by code_simp
  have l': "frame_line ''10'' [''20''] ''30'' = ''10 20 30''"
    by code_simp
  from C6_trailing_content_rejected [of "''2a''" "[''01'']" "''ff''" "'' ERR''"] h
  have "parseLine (frame_line ''2a'' [''01''] ''ff'' @ '' ERR'') = None" by blast
  moreover from C6_trailing_content_rejected [of "''10''" "[''20'']" "''30''" "'' ERR''"] h'
  have "parseLine (frame_line ''10'' [''20''] ''30'' @ [CHR 0x0A]) =
          Some \<lparr>id_f = ''10'', data = [''20''], checksum = ''30''\<rparr>" by blast
  ultimately show ?thesis unfolding l l' by blast
qed

text \<open>
  Claim C7 says that \<^verbatim>\<open>diffBitLists\<close> indexes out of range whenever the two lengths
  differ. The loop runs over the new list only: with a stored list of two bytes and a
  new one of one byte every read of the old list is in range, and a mask comes back.
\<close>

theorem C7_counterexample:
  "length (replicate 16 ''0'') \<noteq> length (replicate 8 ''1'') \<and>
   diffBitLists (replicate 16 ''0'') (replicate 8 ''1'') = Inr (replicate 8 ''1'')"
  by code_simp

text \<open>
  Claim C7, amended. When the new bit list is longer than the stored one,
  \<^verbatim>\<open>diffBitLists\<close> raises \<^verbatim>\<open>IndexError\<close>. When it is shorter, no read is out of
  range: the result is the mask of the new list against the first bits of the old one.
\<close>

theorem C7_diffBitLists_length_mismatch:
  "(length old_bit_list < length new_bit_list \<longrightarrow>
      diffBitLists old_bit_list new_bit_list = Inl IndexError) \<and>
   (length new_bit_list < length old_bit_list \<longrightarrow>
      diffBitLists old_bit_list new_bit_list =
        Inr (diff_mask (take (length new_bit_list) old_bit_list) new_bit_list))"
proof (intro conjI impI)
  assume "length old_bit_list < length new_bit_list"
  then show "diffBitLists old_bit_list new_bit_list = Inl IndexError"
    by (rule diffBitLists_out_of_range)
next
  assume a: "length new_bit_list < length old_bit_list"
  then have "diffBitLists old_bit_list new_bit_list = Inr (diff_mask old_bit_list new_bit_list)"
    by (simp add: diffBitLists_in_range)
  moreover have "diff_mask old_bit_list new_bit_list =
      diff_mask (take (length new_bit_list) old_bit_list) new_bit_list"
    by (simp add: diff_mask_def)
  ultimately show "diffBitLists old_bit_list new_bit_list =
        Inr (diff_mask (take (length new_bit_list) old_bit_list) new_bit_list)"
    by simp
qed

theorem C7_diffBitLists_length_mismatch_witness:
  "diffBitLists (replicate 8 ''0'') (replicate 16 ''1'') = Inl IndexError \<and>
   diffBitLists (replicate 16 ''0'') (replicate 8 ''1'') = Inr (diff_mask (replicate 8 ''0'') (replicate 8 ''1''))"
  using C7_diffBitLists_length_mismatch [of "replicate 8 ''0''" "replicate 16 ''1''"]
    C7_diffBitLists_length_mismatch [of "replicate 16 ''0''" "replicate 8 ''1''"]
  by simp

text \<open>
  Claim C8. When the history table holds, for the identifier of the parsed frame, the
  very bit list of the frame's data, the loop body writes nothing and changes nothing.
  In particular, after a loop body that ended without an exception on a frame, the
  next frame with the same identifier and the same data gives no output.
\<close>

theorem C8_identical_frame_suppressed:
  "(parseLine line = Some frame \<and> hexListToBitList (data frame) = Inr bits \<and>
    last_bit_lists st (id_f frame) = Some bits \<longrightarrow>
      main_iter True timestamp line st = (st, None)) \<and>
   (parseLine line1 = Some frame1 \<and> parseLine line2 = Some frame2 \<and>
    id_f frame2 = id_f frame1 \<and> data frame2 = data frame1 \<and>
    main_iter True timestamp1 line1 st = (st1, None) \<longrightarrow>
      main_iter True timestamp2 line2 st1 = (st1, None))"
proof (intro conjI impI)
  assume "parseLine line = Some frame \<and> hexListToBitList (data frame) = Inr bits \<and>
    last_bit_lists st (id_f frame) = Some bits"
  then show "main_iter True timestamp line st = (st, None)"
    by (simp add: main_iter_same)
next
  assume a: "parseLine line1 = Some frame1 \<and> parseLine line2 = Some frame2 \<and>
    id_f frame2 = id_f frame1 \<and> data frame2 = data frame1 \<and>
    main_iter True timestamp1 line1 st = (st1, None)"
  then have p1: "parseLine line1 = Some frame1" and p2: "parseLine line2 = Some frame2" by simp_all
  from parseLine_bits [OF p1] obtain bits where b: "hexListToBitList (data frame1) = Inr bits" ..
  from main_iter_history [OF p1 b, of timestamp1 st] a
  have "last_bit_lists st1 (id_f frame2) = Some bits" by simp
  moreover from a b have "hexListToBitList (data frame2) = Inr bits" by simp
  ultimately show "main_iter True timestamp2 line2 st1 = (st1, None)"
    using p2 by (simp add: main_iter_same)
qed

theorem C8_identical_frame_suppressed_witness:
  "main_loop True [(''00000.001'', ''2a 01 02 ff''), (''00000.002'', ''2a 01 02 ff'')] init_state =
   main_loop True [(''00000.001'', ''2a 01 02 ff'')] init_state \<and>
   stdout (fst (main_loop True [(''00000.001'', ''2a 01 02 ff''), (''00000.002'', ''2a 01 02 ff'')]
     init_state)) = []"
proof -
  let ?fr = "\<lparr>id_f = ''2a'', data = [''01'', ''02''], checksum = ''ff''\<rparr>"
  let ?bits = "[''0'', ''0'', ''0'', ''0'', ''0'', ''0'', ''0'', ''1'',
                ''0'', ''0'', ''0'', ''0'', ''0'', ''0'', ''1'', ''0'']"
  let ?st1 = "init_state\<lparr>last_bit_lists := (last_bit_lists init_state)(''2a'' \<mapsto> ?bits)\<rparr>"
  have p: "parseLine ''2a 01 02 ff'' = Some ?fr" by code_simp
  have h: "hexListToBitList (data ?fr) = Inr ?bits" by code_simp
  have f: "main_iter True ''00000.001'' ''2a 01 02 ff'' init_state = (?st1, None)"
    using p h by (simp add: main_iter_def init_state_def)
  from C8_identical_frame_suppressed [where line = "''2a 01 02 ff''" and frame = ?fr
      and bits = ?bits and timestamp = "''00000.002''"
      and ?line1.0 = "''2a 01 02 ff''" and ?frame1.0 = ?fr
      and ?line2.0 = "''2a 01 02 ff''" and ?frame2.0 = ?fr and ?timestamp1.0 = "''00000.001''"
      and st = init_state and ?st1.0 = ?st1 and ?timestamp2.0 = "''00000.002''"] p h f
  have "main_iter True ''00000.002'' ''2a 01 02 ff'' ?st1 = (?st1, None)" by simp
  with f show ?thesis by (simp add: init_state_def)
qed

text \<open>
  Claim C9. In diff mode, on a line for which \<^verbatim>\<open>parseLine\<close> gives \<open>None\<close>, one run
  of the loop body writes nothing, raises nothing and leaves the history table as it
  was: the state after is the state before.
\<close>

theorem C9_unparsable_line_skipped:
  "parseLine line = None \<Longrightarrow> main_iter True timestamp line st = (st, None)"
  by (simp add: main_iter_def)

theorem C9_unparsable_line_skipped_witness:
  "parseLine ''2a 01 02 ff ERR'' = None \<and>
   main_iter True ''00000.001'' ''2a 01 02 ff ERR'' init_state = (init_state, None)"
proof -
  have "parseLine ''2a 01 02 ff ERR'' = None"
    by (simp add: parseLine_def kFrameRegex_match_def groups_then_tail_def hexdig_def dollar_def)
  then show ?thesis
    using C9_unparsable_line_skipped [of "''2a 01 02 ff ERR''" "''00000.001''" init_state] by simp
qed

text \<open>
  Claim C10. For every string \<open>s\<close>, chunk size \<open>n \<ge> 1\<close> and separator,
  \<^verbatim>\<open>insertSeperators\<close> returns the chunks of \<open>s\<close> joined by the separator: the chunks
  concatenated are \<open>s\<close>, every chunk but the last has \<open>n\<close> characters, the last has
  between one and \<open>n\<close>, and removing the separators from the result gives \<open>s\<close> back.
  The empty string gives the empty string.
\<close>

theorem C10_insertSeperators_preserves:
  "1 \<le> n \<Longrightarrow>
   \<exists>cs. insertSeperators s n sep = Inr (py_join sep cs) \<and>
        concat cs = s \<and>
        (\<forall>c\<in>set (butlast cs). length c = nat n) \<and>
        (\<forall>c\<in>set cs. 0 < length c \<and> length c \<le> nat n) \<and>
        remove_seps (nat n) (length sep) (py_join sep cs) = s \<and>
        (s = [] \<longrightarrow> py_join sep cs = [])"
proof -
  assume "1 \<le> n"
  then have n: "0 < n" "0 < nat n" by simp_all
  let ?cs = "chunks (nat n) s"
  have "insertSeperators s n sep = Inr (py_join sep ?cs)"
    using n(1) by (rule insertSeperators_chunks)
  moreover have "concat ?cs = s"
    using n(2) by (rule concat_chunks)
  moreover have "\<forall>c\<in>set (butlast ?cs). length c = nat n"
    using chunks_butlast_lengths [OF n(2)] by blast
  moreover have "\<forall>c\<in>set ?cs. 0 < length c \<and> length c \<le> nat n"
    using chunks_lengths [OF n(2)] by blast
  moreover have "remove_seps (nat n) (length sep) (py_join sep ?cs) = s"
    using n(2) by (rule remove_seps_join_chunks)
  moreover have "s = [] \<longrightarrow> py_join sep ?cs = []"
    by (simp add: chunks.simps)
  ultimately show ?thesis by blast
qed

theorem C10_insertSeperators_preserves_witness:
  "insertSeperators ''abcdefghij'' 4 '', '' = Inr ''abcd, efgh, ij'' \<and>
   remove_seps 4 (length '', '') ''abcd, efgh, ij'' = ''abcdefghij''"
proof -
  have e: "insertSeperators ''abcdefghij'' 4 '', '' = Inr ''abcd, efgh, ij''"
    by code_simp
  have "(1::int) \<le> 4" by simp
  from C10_insertSeperators_preserves [OF this, of "''abcdefghij''" "'', ''"]
  obtain cs where a: "insertSeperators ''abcdefghij'' 4 '', '' = Inr (py_join '', '' cs)"
    and b: "remove_seps (nat 4) (length '', '') (py_join '', '' cs) = ''abcdefghij''"
    by blast
  from a e have "py_join '', '' cs = ''abcd, efgh, ij''" by simp
  with b e show ?thesis by simp
qed

end
